theory Spec2Isabelle
  imports Complex_Main "HOL-Library.Word"
begin

section \<open>The hash table of src/HashMap/hashMap.js\<close>

text \<open>
  The class \<^verbatim>\<open>HashMap\<close> is embedded field by field and method by method. Modelling
  decisions:
  \<^item> A JavaScript string is a sequence of 16-bit code units, so a key is a list of
    16-bit words and \<^verbatim>\<open>key.charCodeAt(i)\<close> is the unsigned value of the i-th
    word.
  \<^item> A stored value is any JavaScript value, \<^verbatim>\<open>undefined\<close> included; the payload
    of every other value is opaque to the table (type variable \<open>'v\<close>).
  \<^item> An entry object \<^verbatim>\<open>{ key, value }\<close> is the pair \<open>(key, value)\<close>.
  \<^item> \<^verbatim>\<open>new Array(n)\<close> has \<open>n\<close> holes; a hole reads as \<^verbatim>\<open>undefined\<close> and is
    \<open>None\<close> here, a bucket array \<open>b\<close> is \<open>Some b\<close>. An empty array is truthy in
    JavaScript, so \<^verbatim>\<open>!bucket\<close> holds exactly for \<open>None\<close>.
  \<^item> The numbers of the source are doubles. Sizes, capacities and the hash
    accumulator are integers there, and double arithmetic on integers is exact below
    \<open>2^53\<close>; the model uses unbounded \<open>nat\<close> and \<open>int\<close>, and exact rationals for the
    load factor (\<open>0.75\<close> is \<open>3/4\<close> exactly as a double). The capacity is a positive
    integer (for capacity \<open>0\<close> the source computes \<^verbatim>\<open>NaN\<close>, which has no
    counterpart here).
  \<^item> \<^verbatim>\<open>new Array(n)\<close> succeeds for every length below \<open>2^32\<close>. A table whose
    doubled capacity would reach \<open>2^32\<close> needs more than \<open>1.6 * 10^9\<close> entries
    before \<^verbatim>\<open>_resize\<close> is called on it; the model does not bound the length of an
    array, so it says nothing about the \<^verbatim>\<open>RangeError\<close> of that call. With the
    capacity below \<open>2^32\<close> the hash accumulator stays below \<open>2^37\<close>, well inside the
    exact range of doubles.
  \<^item> \<^verbatim>\<open>console.log\<close> and \<^verbatim>\<open>_printBuckets\<close> only print; they are left out.
  \<^item> Every mutating method takes the table and returns the new table.
  \<^item> Names are the source's without the leading underscore. Where the name is taken
    in HOL it carries a suffix: the field \<^verbatim>\<open>_size\<close> is \<open>size'\<close>, and the methods
    \<^verbatim>\<open>set\<close>, \<^verbatim>\<open>remove\<close>, \<^verbatim>\<open>length\<close> and \<^verbatim>\<open>values\<close> are \<open>set_hm\<close>,
    \<open>remove_hm\<close>, \<open>length_hm\<close> and \<open>values_hm\<close>.
\<close>

subsection \<open>Data\<close>

type_synonym js_string = "16 word list"

datatype 'v js_value = Undefined | Defined 'v

type_synonym 'v entry = "js_string \<times> 'v js_value"

type_synonym 'v bucket = "'v entry list"

record 'v HashMap =
  buckets :: "'v bucket option list"
  capacity :: nat
  loadFactor :: rat
  size' :: int
  resizeCount :: nat

datatype error = InvalidKey

text \<open>An ASCII literal as a JavaScript string.\<close>

definition str :: "string \<Rightarrow> js_string" where
  "str s = map (\<lambda>c. of_nat (of_char c)) s"

definition charCodeAt :: "js_string \<Rightarrow> nat \<Rightarrow> nat" where
  "charCodeAt key i = unat (key ! i)"

text \<open>
  Reading and writing a JavaScript array by index: a read outside the array gives
  \<^verbatim>\<open>undefined\<close>, a write outside extends the array with holes.
\<close>

definition array_get :: "'a option list \<Rightarrow> nat \<Rightarrow> 'a option" where
  "array_get xs i = (if i < length xs then xs ! i else None)"

definition array_set :: "'a option list \<Rightarrow> nat \<Rightarrow> 'a \<Rightarrow> 'a option list" where
  "array_set xs i x =
     (if i < length xs then xs[i := Some x]
      else xs @ replicate (i - length xs) None @ [Some x])"

subsection \<open>Constructor\<close>

definition new_HashMap :: "nat \<Rightarrow> 'v HashMap" where
  "new_HashMap initialCapacity =
     \<lparr> buckets = replicate initialCapacity None,
       capacity = initialCapacity,
       loadFactor = 3 / 4,
       size' = 0,
       resizeCount = 0 \<rparr>"

text \<open>\<^verbatim>\<open>new HashMap()\<close>: the default capacity is 16.\<close>

definition default_HashMap :: "'v HashMap" where
  "default_HashMap = new_HashMap 16"

subsection \<open>Hashing\<close>

text \<open>
  The loop of \<^verbatim>\<open>_hash\<close>: \<open>i\<close> runs from its start value up to \<^verbatim>\<open>key.length\<close>, and
  \<open>h\<close> is the variable \<^verbatim>\<open>hash\<close>.
\<close>

function hash_loop :: "nat \<Rightarrow> js_string \<Rightarrow> nat \<Rightarrow> nat \<Rightarrow> nat" where
  "hash_loop cap key i h =
     (if i < length key
      then hash_loop cap key (Suc i) ((h * 31 + charCodeAt key i) mod cap)
      else h)"
  by pat_completeness auto
termination
  by (relation "measure (\<lambda>(cap, key, i, h). length key - i)") auto

declare hash_loop.simps [simp del]

definition hash :: "'v HashMap \<Rightarrow> js_string \<Rightarrow> nat" where
  "hash t key = hash_loop (capacity t) key 0 0"

subsection \<open>Resizing\<close>

definition needsResize :: "'v HashMap \<Rightarrow> bool" where
  "needsResize t \<longleftrightarrow> of_int (size' t) / of_nat (capacity t) > loadFactor t"

text \<open>
  The scan of a chain in \<^verbatim>\<open>_insertWithoutResize\<close>: the first entry with the key gets
  the new value (\<open>Some\<close> of the chain after the assignment); \<open>None\<close> when the loop ends
  without a match.
\<close>

fun chain_assign :: "js_string \<Rightarrow> 'v js_value \<Rightarrow> 'v bucket \<Rightarrow> 'v bucket option" where
  "chain_assign key val [] = None"
| "chain_assign key val (item # items) =
     (if fst item = key then Some ((fst item, val) # items)
      else map_option ((#) item) (chain_assign key val items))"

definition insertWithoutResize :: "'v HashMap \<Rightarrow> js_string \<Rightarrow> 'v js_value \<Rightarrow> 'v HashMap" where
  "insertWithoutResize t key val =
     (let index = hash t key;
          bucket = (case array_get (buckets t) index of None \<Rightarrow> [] | Some b \<Rightarrow> b)
      in case chain_assign key val bucket of
           Some bucket' \<Rightarrow> t\<lparr>buckets := array_set (buckets t) index bucket'\<rparr>
         | None \<Rightarrow>
             t\<lparr>buckets := array_set (buckets t) index (bucket @ [(key, val)]),
               size' := size' t + 1\<rparr>)"

text \<open>The two nested loops of \<^verbatim>\<open>_resize\<close> over the old buckets.\<close>

fun rehash_bucket :: "'v HashMap \<Rightarrow> 'v bucket \<Rightarrow> 'v HashMap" where
  "rehash_bucket t [] = t"
| "rehash_bucket t (item # items) =
     rehash_bucket (insertWithoutResize t (fst item) (snd item)) items"

fun rehash :: "'v HashMap \<Rightarrow> 'v bucket option list \<Rightarrow> 'v HashMap" where
  "rehash t [] = t"
| "rehash t (bucket # oldBuckets) =
     rehash (case bucket of None \<Rightarrow> t | Some b \<Rightarrow> rehash_bucket t b) oldBuckets"

definition resize :: "'v HashMap \<Rightarrow> 'v HashMap" where
  "resize t =
     (let oldBuckets = buckets t
      in rehash
           (t\<lparr>resizeCount := resizeCount t + 1,
              capacity := capacity t * 2,
              buckets := replicate (capacity t * 2) None,
              size' := 0\<rparr>)
           oldBuckets)"

subsection \<open>The public methods\<close>

text \<open>
  \<^verbatim>\<open>set\<close>: the key argument is \<open>None\<close> for \<^verbatim>\<open>null\<close> or \<^verbatim>\<open>undefined\<close> (the guard
  \<^verbatim>\<open>key == null\<close> holds for both) and \<open>Some k\<close> for a string.
\<close>

definition set_hm :: "'v HashMap \<Rightarrow> js_string option \<Rightarrow> 'v js_value \<Rightarrow> error + 'v HashMap" where
  "set_hm t key val =
     (case key of
        None \<Rightarrow> Inl InvalidKey
      | Some k \<Rightarrow>
          Inr (insertWithoutResize (if needsResize t then resize t else t) k val))"

fun chain_get :: "js_string \<Rightarrow> 'v bucket \<Rightarrow> 'v js_value" where
  "chain_get key [] = Undefined"
| "chain_get key (item # items) =
     (if fst item = key then snd item else chain_get key items)"

definition get :: "'v HashMap \<Rightarrow> js_string \<Rightarrow> 'v js_value" where
  "get t key =
     (case array_get (buckets t) (hash t key) of
        None \<Rightarrow> Undefined
      | Some bucket \<Rightarrow> chain_get key bucket)"

definition has :: "'v HashMap \<Rightarrow> js_string \<Rightarrow> bool" where
  "has t key \<longleftrightarrow> get t key \<noteq> Undefined"

text \<open>
  The loop of \<^verbatim>\<open>remove\<close>: the first index whose entry has the key, if any.
\<close>

fun find_key :: "js_string \<Rightarrow> 'v bucket \<Rightarrow> nat option" where
  "find_key key [] = None"
| "find_key key (item # items) =
     (if fst item = key then Some 0 else map_option Suc (find_key key items))"

text \<open>
  \<^verbatim>\<open>remove\<close> returns its boolean together with the table. Inside the guard
  \<^verbatim>\<open>this.has(key)\<close> the bucket is an array (\<^verbatim>\<open>get\<close> has just read an entry from
  it), so the branch for a hole is never taken; it is there to keep the function
  total.
\<close>

definition remove_hm :: "'v HashMap \<Rightarrow> js_string \<Rightarrow> bool \<times> 'v HashMap" where
  "remove_hm t key =
     (if has t key then
        (let index = hash t key
         in case array_get (buckets t) index of
              None \<Rightarrow> (False, t)
            | Some bucket \<Rightarrow>
                (case find_key key bucket of
                   Some i \<Rightarrow>
                     (True,
                      t\<lparr>buckets :=
                          array_set (buckets t) index (butlast (bucket[i := last bucket])),
                        size' := size' t - 1\<rparr>)
                 | None \<Rightarrow> (False, t)))
      else (False, t))"

definition length_hm :: "'v HashMap \<Rightarrow> int" where
  "length_hm t = size' t"

definition clear :: "'v HashMap \<Rightarrow> 'v HashMap" where
  "clear t = t\<lparr>buckets := replicate (capacity t) None, size' := 0\<rparr>"

text \<open>
  \<^verbatim>\<open>keys\<close>, \<^verbatim>\<open>values\<close> and \<^verbatim>\<open>entries\<close>: \<^verbatim>\<open>forEach\<close> over the buckets, skipping
  holes and \<^verbatim>\<open>undefined\<close>, and \<^verbatim>\<open>forEach\<close> over each bucket, pushing onto the
  result array.
\<close>

definition collect :: "('v entry \<Rightarrow> 'a) \<Rightarrow> 'v HashMap \<Rightarrow> 'a list" where
  "collect f t =
     foldl (\<lambda>acc bucket.
              case bucket of
                None \<Rightarrow> acc
              | Some b \<Rightarrow> foldl (\<lambda>acc item. acc @ [f item]) acc b)
       [] (buckets t)"

definition keys :: "'v HashMap \<Rightarrow> js_string list" where
  "keys t = collect (\<lambda>item. fst item) t"

definition values_hm :: "'v HashMap \<Rightarrow> 'v js_value list" where
  "values_hm t = collect (\<lambda>item. snd item) t"

text \<open>
  The template literal \<^verbatim>\<open>`[${item.key}, ${item.value}]`\<close> converts the value to a
  string: \<^verbatim>\<open>undefined\<close> becomes the text "undefined"; the conversion of the opaque
  payload is the parameter \<open>render\<close>.
\<close>

definition toString :: "('v \<Rightarrow> js_string) \<Rightarrow> 'v js_value \<Rightarrow> js_string" where
  "toString render val =
     (case val of Undefined \<Rightarrow> str ''undefined'' | Defined x \<Rightarrow> render x)"

definition format_entry :: "('v \<Rightarrow> js_string) \<Rightarrow> 'v entry \<Rightarrow> js_string" where
  "format_entry render item =
     str ''['' @ fst item @ str '', '' @ toString render (snd item) @ str '']''"

definition entries :: "('v \<Rightarrow> js_string) \<Rightarrow> 'v HashMap \<Rightarrow> js_string list" where
  "entries render t = collect (format_entry render) t"

subsection \<open>Reachable tables\<close>

text \<open>
  The tables a program can observe: a freshly constructed one (with a positive
  capacity), and whatever \<^verbatim>\<open>set\<close>, \<^verbatim>\<open>remove\<close> and \<^verbatim>\<open>clear\<close> make of an observable
  one. The other public methods do not change the table.
\<close>

inductive reachable :: "'v HashMap \<Rightarrow> bool" where
  r_new: "0 < initialCapacity \<Longrightarrow> reachable (new_HashMap initialCapacity)"
| r_set: "reachable t \<Longrightarrow> set_hm t key val = Inr t' \<Longrightarrow> reachable t'"
| r_remove: "reachable t \<Longrightarrow> reachable (snd (remove_hm t key))"
| r_clear: "reachable t \<Longrightarrow> reachable (clear t)"

subsection \<open>The test script at the end of the file\<close>

text \<open>
  A script of successive \<^verbatim>\<open>set\<close> calls with string keys. (\<^verbatim>\<open>set\<close> throws only
  for a \<^verbatim>\<open>null\<close> or \<^verbatim>\<open>undefined\<close> key, so the error branch is never taken.)
\<close>

fun set_all :: "'v HashMap \<Rightarrow> (js_string \<times> 'v js_value) list \<Rightarrow> 'v HashMap" where
  "set_all t [] = t"
| "set_all t (kv # kvs) =
     set_all (case set_hm t (Some (fst kv)) (snd kv) of Inr t' \<Rightarrow> t' | Inl e \<Rightarrow> t) kvs"

text \<open>Lines 293 to 307 of the source: the twelve entries loaded into \<^verbatim>\<open>new HashMap()\<close>.\<close>

definition test_entries :: "(js_string \<times> js_string js_value) list" where
  "test_entries = map (\<lambda>(k, v). (str k, Defined (str v)))
     [(''apple'', ''red''), (''banana'', ''yellow''), (''carrot'', ''orange''),
      (''dog'', ''brown''), (''elephant'', ''gray''), (''frog'', ''green''),
      (''grape'', ''purple''), (''hat'', ''black''), (''ice cream'', ''white''),
      (''jacket'', ''blue''), (''kite'', ''pink''), (''lion'', ''golden'')]"

definition test_loaded :: "js_string HashMap" where
  "test_loaded = set_all default_HashMap test_entries"

text \<open>Line 315: \<^verbatim>\<open>test.set("kite", "blue")\<close>; line 317: \<^verbatim>\<open>test.set("moon", "silver")\<close>.\<close>

definition test_updated :: "js_string HashMap" where
  "test_updated = set_all test_loaded [(str ''kite'', Defined (str ''blue''))]"

definition test_moon :: "js_string HashMap" where
  "test_moon = set_all test_updated [(str ''moon'', Defined (str ''silver''))]"

text \<open>Two continuations of the script: an existing key again, and a fourteenth key.\<close>

definition test_kite_again :: "js_string HashMap" where
  "test_kite_again = set_all test_moon [(str ''kite'', Defined (str ''green''))]"

definition test_nest :: "js_string HashMap" where
  "test_nest = set_all test_moon [(str ''nest'', Defined (str ''straw''))]"

text \<open>Small tables: one key with the value \<^verbatim>\<open>undefined\<close>; a comma in a key or a value.\<close>

definition stored_undefined :: "js_string HashMap" where
  "stored_undefined = set_all default_HashMap [(str ''a'', Undefined)]"

definition comma_in_key :: "js_string HashMap" where
  "comma_in_key = set_all default_HashMap [(str ''a, b'', Defined (str ''c''))]"

definition comma_in_value :: "js_string HashMap" where
  "comma_in_value = set_all default_HashMap [(str ''a'', Defined (str ''b, c''))]"

subsection \<open>Specification-level notions\<close>

text \<open>
  The hash as the specification words it: start at 0 and, for each character in turn,
  replace the accumulator by \<open>(hash * 31 + charCode) mod capacity\<close>.
\<close>

definition rolling_hash_spec :: "nat \<Rightarrow> js_string \<Rightarrow> nat" where
  "rolling_hash_spec cap key = foldl (\<lambda>h c. (h * 31 + unat c) mod cap) 0 key"

text \<open>The chain of a slot (a hole has none), and all stored entries, slot after slot.\<close>

fun chain :: "'v bucket option \<Rightarrow> 'v bucket" where
  "chain None = []"
| "chain (Some b) = b"

definition stored :: "'v HashMap \<Rightarrow> 'v entry list" where
  "stored t = concat (map chain (buckets t))"

text \<open>
  The order the specification gives for the iteration methods: by bucket index, and
  within a bucket by position in the chain.
\<close>

definition in_order :: "'v HashMap \<Rightarrow> 'v entry list" where
  "in_order t = concat (map (\<lambda>i. chain (array_get (buckets t) i)) [0..<length (buckets t)])"

text \<open>The table as a finite map: what the chain of the key's bucket binds the key to.\<close>

definition lookup :: "'v HashMap \<Rightarrow> js_string \<Rightarrow> 'v js_value option" where
  "lookup t key = map_of (chain (array_get (buckets t) (hash t key))) key"

text \<open>
  The representation invariant: one slot per unit of capacity, the threshold at
  \<open>3/4\<close>, the size field counting the stored entries, every entry in the bucket of its
  hash, and no key twice in a chain.
\<close>

definition table_inv :: "'v HashMap \<Rightarrow> bool" where
  "table_inv t \<longleftrightarrow>
     0 < capacity t \<and> length (buckets t) = capacity t \<and> loadFactor t = 3 / 4 \<and>
     size' t = int (length (stored t)) \<and>
     (\<forall>i < capacity t. \<forall>item \<in> set (chain (buckets t ! i)). hash t (fst item) = i) \<and>
     (\<forall>i < capacity t. distinct (map fst (chain (buckets t ! i))))"

text \<open>The bound on the load that the check before each insertion maintains.\<close>

definition load_bound :: "'v HashMap \<Rightarrow> bool" where
  "load_bound t \<longleftrightarrow> 4 * (size' t - 1) \<le> 3 * int (capacity t)"

text \<open>One step of the rehash loop, and the first half of \<^verbatim>\<open>set\<close>.\<close>

definition ins :: "'v HashMap \<Rightarrow> 'v entry \<Rightarrow> 'v HashMap" where
  "ins t item = insertWithoutResize t (fst item) (snd item)"

definition pre_resize :: "'v HashMap \<Rightarrow> 'v HashMap" where
  "pre_resize t = (if needsResize t then resize t else t)"

section \<open>Properties of the parts\<close>

subsection \<open>The hash\<close>

lemma hash_loop_foldl:
  "hash_loop cap key i h = foldl (\<lambda>h c. (h * 31 + unat c) mod cap) h (drop i key)"
proof (induction cap key i h rule: hash_loop.induct)
  case (1 cap key i h)
  show ?case
  proof (cases "i < length key")
    case True
    then have "drop i key = key ! i # drop (Suc i) key"
      by (simp add: Cons_nth_drop_Suc)
    with True 1 show ?thesis
      by (subst hash_loop.simps) (simp add: charCodeAt_def)
  next
    case False
    then show ?thesis
      by (subst hash_loop.simps) simp
  qed
qed

lemma foldl_mod_less:
  "0 < cap \<Longrightarrow> h < cap \<Longrightarrow> foldl (\<lambda>h c. (h * 31 + unat c) mod cap) h cs < (cap::nat)"
  by (induction cs arbitrary: h) simp_all

lemma hash_less: "0 < capacity t \<Longrightarrow> hash t key < capacity t"
  by (simp add: hash_def hash_loop_foldl foldl_mod_less)

lemma hash_capacity: "capacity t' = capacity t \<Longrightarrow> hash t' key = hash t key"
  by (simp add: hash_def)

lemma foldl_horner:
  "foldl (\<lambda>h (c::16 word). h * 31 + unat c) a cs
     = a * 31 ^ length cs + foldl (\<lambda>h (c::16 word). h * 31 + unat c) 0 cs"
proof (induction cs arbitrary: a)
  case Nil
  then show ?case by simp
next
  case (Cons c cs)
  show ?case
    using Cons.IH [of "a * 31 + unat c"] Cons.IH [of "unat c"]
    by (simp add: algebra_simps)
qed

lemma foldl_poly:
  "foldl (\<lambda>h c. (h * 31 + unat c) mod cap) h cs mod cap
     = foldl (\<lambda>h (c::16 word). h * 31 + unat c) h cs mod (cap::nat)"
proof (induction cs arbitrary: h)
  case Nil
  then show ?case by simp
next
  case (Cons c cs)
  have "foldl (\<lambda>h c. (h * 31 + unat c) mod cap) h (c # cs) mod cap
      = foldl (\<lambda>h (c::16 word). h * 31 + unat c) ((h * 31 + unat c) mod cap) cs mod cap"
    using Cons.IH [of "(h * 31 + unat c) mod cap"] by simp
  also have "\<dots> = (((h * 31 + unat c) mod cap) * 31 ^ length cs
                     + foldl (\<lambda>h (c::16 word). h * 31 + unat c) 0 cs) mod cap"
    by (subst foldl_horner) simp
  also have "\<dots> = ((h * 31 + unat c) * 31 ^ length cs
                     + foldl (\<lambda>h (c::16 word). h * 31 + unat c) 0 cs) mod cap"
    by (rule mod_add_cong) (simp_all add: mod_mult_left_eq)
  also have "\<dots> = foldl (\<lambda>h (c::16 word). h * 31 + unat c) (h * 31 + unat c) cs mod cap"
    by (subst (2) foldl_horner) simp
  finally show ?case by simp
qed

subsection \<open>Chains\<close>

lemma chain_get_map_of:
  "chain_get key b = (case map_of b key of None \<Rightarrow> Undefined | Some v \<Rightarrow> v)"
  by (induction b) auto

lemma get_lookup: "get t key = (case lookup t key of None \<Rightarrow> Undefined | Some v \<Rightarrow> v)"
  by (simp add: get_def lookup_def chain_get_map_of split: option.splits)

lemma has_lookup: "has t key \<longleftrightarrow> (\<exists>x. lookup t key = Some (Defined x))"
proof (cases "lookup t key")
  case None
  then show ?thesis by (simp add: has_def get_lookup)
next
  case (Some v)
  then show ?thesis by (cases v) (simp_all add: has_def get_lookup)
qed

lemma chain_assign_None: "chain_assign key val b = None \<longleftrightarrow> key \<notin> fst ` set b"
  by (induction b) auto

lemma chain_assign_Some:
  "chain_assign key val b = Some b' \<Longrightarrow>
     map fst b' = map fst b \<and> map_of b' = (map_of b)(key \<mapsto> val)"
proof (induction b arbitrary: b')
  case Nil
  then show ?case by simp
next
  case (Cons item items)
  show ?case
  proof (cases "fst item = key")
    case True
    with Cons.prems show ?thesis by (cases item) auto
  next
    case False
    with Cons.prems obtain r where r: "chain_assign key val items = Some r" "b' = item # r"
      by auto
    from Cons.IH [OF r(1)] r(2) False show ?thesis
      by (cases item) (auto simp: fun_eq_iff)
  qed
qed

lemma find_key_None: "find_key key b = None \<longleftrightarrow> key \<notin> fst ` set b"
  by (induction b) auto

lemma find_key_Some:
  "find_key key b = Some i \<Longrightarrow> i < length b \<and> fst (b ! i) = key"
  by (induction b arbitrary: i) (auto split: if_splits)

lemma swap_pop_set:
  assumes "distinct (map fst b)" "i < length b"
  shows "set (butlast (b[i := last b])) = set b - {b ! i}"
    and "distinct (map fst (butlast (b[i := last b])))"
proof -
  from assms(2) have "b \<noteq> []" by auto
  then obtain xs l where b: "b = xs @ [l]"
    by (cases b rule: rev_cases) auto
  have dxs: "distinct (map fst xs)" and l: "fst l \<notin> fst ` set xs"
    using assms(1) by (auto simp: b)
  have dx: "distinct xs" using dxs by (simp add: distinct_map)
  show "set (butlast (b[i := last b])) = set b - {b ! i}"
  proof (cases "i < length xs")
    case True
    then have "butlast (b[i := last b]) = xs[i := l]"
      by (simp add: b list_update_append)
    moreover have "set (xs[i := l]) = insert l (set xs - {xs ! i})"
      using True dx by (simp add: set_update_distinct)
    moreover have "l \<notin> set xs" using l by force
    ultimately show ?thesis using True by (auto simp: b nth_append)
  next
    case False
    with assms(2) have "i = length xs" by (simp add: b)
    moreover have "l \<notin> set xs" using l by force
    ultimately show ?thesis by (simp add: b)
  qed
  show "distinct (map fst (butlast (b[i := last b])))"
  proof (cases "i < length xs")
    case True
    then have eq: "butlast (b[i := last b]) = xs[i := l]"
      by (simp add: b list_update_append)
    have "map fst (xs[i := l]) = (map fst xs)[i := fst l]"
      by (simp add: map_update)
    moreover have "distinct ((map fst xs)[i := fst l])"
      using dxs l by (simp add: distinct_list_update)
    ultimately show ?thesis by (simp add: eq)
  next
    case False
    with assms(2) have "i = length xs" by (simp add: b)
    then show ?thesis using dxs by (simp add: b)
  qed
qed

subsection \<open>Replacing one bucket\<close>

lemma length_concat_update:
  "i < length bs \<Longrightarrow>
     int (length (concat (map chain (bs[i := x]))))
       = int (length (concat (map chain bs))) + int (length (chain x)) - int (length (chain (bs ! i)))"
proof -
  assume i: "i < length bs"
  then have "map (length \<circ> chain) bs ! i \<le> sum_list (map (length \<circ> chain) bs)"
    by (intro elem_le_sum_list) simp
  with i show ?thesis
    by (simp add: length_concat map_update sum_list_update)
qed

lemma lookup_map_of:
  "0 < capacity t \<Longrightarrow> length (buckets t) = capacity t \<Longrightarrow>
     lookup t key = map_of (chain (buckets t ! hash t key)) key"
  by (simp add: lookup_def array_get_def hash_less)

lemma put_bucket:
  assumes inv: "table_inv t"
    and i: "i < capacity t"
    and d: "distinct (map fst b')"
    and h: "\<forall>item \<in> set b'. hash t (fst item) = i"
    and t': "t' = t\<lparr>buckets := (buckets t)[i := Some b'],
                    size' := size' t + int (length b') - int (length (chain (buckets t ! i)))\<rparr>"
  shows "table_inv t'"
    and "lookup t' key = (if hash t key = i then map_of b' key else lookup t key)"
proof -
  have len: "length (buckets t) = capacity t" and pos: "0 < capacity t"
    using inv by (simp_all add: table_inv_def)
  have hk: "hash t' k = hash t k" for k
    by (simp add: t' hash_def)
  have nth: "chain (buckets t' ! j) = (if j = i then b' else chain (buckets t ! j))"
    if "j < capacity t" for j
    using that i len by (simp add: t' nth_list_update)
  have "size' t' = int (length (stored t'))"
    using inv i len by (simp add: t' table_inv_def stored_def length_concat_update)
  moreover have "hash t' (fst item) = j"
    if "j < capacity t'" "item \<in> set (chain (buckets t' ! j))" for j item
  proof -
    from that(1) have j: "j < capacity t" by (simp add: t')
    show ?thesis
    proof (cases "j = i")
      case True
      with that(2) h nth [OF j] show ?thesis by (simp add: hk)
    next
      case False
      with that(2) nth [OF j] inv j show ?thesis by (simp add: hk table_inv_def)
    qed
  qed
  moreover have "distinct (map fst (chain (buckets t' ! j)))" if "j < capacity t'" for j
  proof -
    from that have j: "j < capacity t" by (simp add: t')
    show ?thesis
      using nth [OF j] d inv j by (simp add: table_inv_def)
  qed
  moreover have "0 < capacity t'" "length (buckets t') = capacity t'" "loadFactor t' = 3 / 4"
    using inv by (simp_all add: table_inv_def t')
  ultimately show "table_inv t'"
    unfolding table_inv_def by blast
  have hl: "hash t key < capacity t" using pos by (rule hash_less)
  have "length (buckets t') = capacity t" using len by (simp add: t')
  with hl have "lookup t' key = map_of (chain (buckets t' ! hash t key)) key"
    by (simp add: lookup_def hk array_get_def)
  moreover from hl len have "lookup t key = map_of (chain (buckets t ! hash t key)) key"
    by (simp add: lookup_def array_get_def)
  ultimately show "lookup t' key = (if hash t key = i then map_of b' key else lookup t key)"
    using nth [OF hl] by simp
qed

subsection \<open>The invariant, method by method\<close>

lemma new_HashMap_inv:
  "0 < c \<Longrightarrow> table_inv (new_HashMap c)"
  by (simp add: table_inv_def new_HashMap_def stored_def)

lemma clear_inv: "table_inv t \<Longrightarrow> table_inv (clear t)"
  by (simp add: table_inv_def clear_def stored_def)

lemma insertWithoutResize_inv:
  assumes inv: "table_inv t"
  shows "table_inv (insertWithoutResize t key val)"
    and "lookup (insertWithoutResize t key val) = (lookup t)(key \<mapsto> val)"
    and "size' (insertWithoutResize t key val) = (if lookup t key = None then size' t + 1 else size' t)"
    and "capacity (insertWithoutResize t key val) = capacity t"
    and "resizeCount (insertWithoutResize t key val) = resizeCount t"
proof -
  define i where "i = hash t key"
  define b where "b = chain (buckets t ! i)"
  define b' where "b' = (case chain_assign key val b of Some r \<Rightarrow> r | None \<Rightarrow> b @ [(key, val)])"
  let ?t' = "insertWithoutResize t key val"
  have len: "length (buckets t) = capacity t" and pos: "0 < capacity t"
    using inv by (simp_all add: table_inv_def)
  have i: "i < capacity t" unfolding i_def using pos by (rule hash_less)
  have db: "distinct (map fst b)" and hb: "\<forall>item \<in> set b. hash t (fst item) = i"
    using inv i by (simp_all add: table_inv_def b_def)
  have lk: "lookup t key = map_of b key"
    using pos len by (simp add: lookup_map_of b_def i_def)
  have bucket: "(case array_get (buckets t) i of None \<Rightarrow> [] | Some x \<Rightarrow> x) = b"
    using i len by (simp add: array_get_def b_def split: option.splits)
  have props: "map_of b' = (map_of b)(key \<mapsto> val) \<and> distinct (map fst b')
      \<and> fst ` set b' = insert key (fst ` set b)
      \<and> int (length b') = int (length b) + (if map_of b key = None then 1 else 0)"
  proof (cases "chain_assign key val b")
    case None
    then have "key \<notin> fst ` set b" by (simp add: chain_assign_None)
    moreover from this have "map_of b key = None" by (simp add: map_of_eq_None_iff)
    ultimately show ?thesis using None db
      by (auto simp: b'_def fun_eq_iff map_add_def split: option.splits)
  next
    case (Some r)
    from chain_assign_Some [OF Some]
    have r: "map fst r = map fst b" "map_of r = (map_of b)(key \<mapsto> val)" by simp_all
    from Some have "key \<in> fst ` set b"
      using chain_assign_None [of key val b] by auto
    then have "map_of b key \<noteq> None" by (simp add: map_of_eq_None_iff)
    moreover have "length r = length b" using r(1) by (rule map_eq_imp_length_eq)
    moreover have "fst ` set r = fst ` set b" using r(1) by (metis set_map)
    ultimately show ?thesis using Some r db \<open>key \<in> fst ` set b\<close>
      by (auto simp: b'_def)
  qed
  have eq: "?t' = t\<lparr>buckets := (buckets t)[i := Some b'],
                     size' := size' t + int (length b') - int (length (chain (buckets t ! i)))\<rparr>"
  proof (cases "chain_assign key val b")
    case None
    then show ?thesis
      using i len bucket
      by (simp add: insertWithoutResize_def Let_def i_def [symmetric] array_set_def b'_def b_def)
  next
    case (Some r)
    from chain_assign_Some [OF Some] have "length r = length b"
      by (metis length_map)
    with Some show ?thesis
      using i len bucket
      by (simp add: insertWithoutResize_def Let_def i_def [symmetric] array_set_def b'_def
          b_def [symmetric])
  qed
  have hb': "\<forall>item \<in> set b'. hash t (fst item) = i"
  proof
    fix item assume "item \<in> set b'"
    then have "fst item \<in> insert key (fst ` set b)" using props by blast
    then show "hash t (fst item) = i" using hb by (auto simp: i_def)
  qed
  from props have db': "distinct (map fst b')" by simp
  show "table_inv ?t'"
    using put_bucket(1) [OF inv i db' hb' eq] .
  show "lookup ?t' = (lookup t)(key \<mapsto> val)"
  proof
    fix k
    have "lookup ?t' k = (if hash t k = i then map_of b' k else lookup t k)"
      using put_bucket(2) [OF inv i db' hb' eq] .
    moreover have "lookup t k = map_of b k" if "hash t k = i"
      using that pos len by (simp add: lookup_map_of b_def)
    ultimately show "lookup ?t' k = ((lookup t)(key \<mapsto> val)) k"
      using props by (auto simp: i_def)
  qed
  show "size' ?t' = (if lookup t key = None then size' t + 1 else size' t)"
    using props by (simp add: eq lk b_def)
  show "capacity ?t' = capacity t" by (simp add: eq)
  show "resizeCount ?t' = resizeCount t" by (simp add: eq)
qed

lemma stored_iff:
  assumes inv: "table_inv t"
  shows "(key, val) \<in> set (stored t) \<longleftrightarrow> lookup t key = Some val"
proof -
  have len: "length (buckets t) = capacity t" and pos: "0 < capacity t"
    using inv by (simp_all add: table_inv_def)
  have hl: "hash t key < capacity t" using pos by (rule hash_less)
  have d: "distinct (map fst (chain (buckets t ! hash t key)))"
    using inv hl by (simp add: table_inv_def)
  have "(key, val) \<in> set (stored t) \<longleftrightarrow> (\<exists>j < capacity t. (key, val) \<in> set (chain (buckets t ! j)))"
  proof
    assume "(key, val) \<in> set (stored t)"
    then obtain x where x: "x \<in> set (buckets t)" "(key, val) \<in> set (chain x)"
      by (auto simp: stored_def)
    from x(1) obtain j where "j < length (buckets t)" "buckets t ! j = x"
      by (auto simp: in_set_conv_nth)
    with x(2) len show "\<exists>j < capacity t. (key, val) \<in> set (chain (buckets t ! j))"
      by auto
  next
    assume "\<exists>j < capacity t. (key, val) \<in> set (chain (buckets t ! j))"
    then obtain j where j: "j < capacity t" "(key, val) \<in> set (chain (buckets t ! j))"
      by blast
    from j(1) len have "buckets t ! j \<in> set (buckets t)" by simp
    with j(2) show "(key, val) \<in> set (stored t)"
      by (auto simp: stored_def)
  qed
  also have "\<dots> \<longleftrightarrow> (key, val) \<in> set (chain (buckets t ! hash t key))"
    using inv hl by (fastforce simp: table_inv_def)
  also have "\<dots> \<longleftrightarrow> lookup t key = Some val"
    using d pos len by (simp add: lookup_map_of)
  finally show ?thesis .
qed

lemma distinct_chains:
  assumes "\<forall>i < length bs. \<forall>item \<in> set (chain (bs ! i)). h (fst item) = i"
    and "\<forall>i < length bs. distinct (map fst (chain (bs ! i)))"
  shows "distinct (map fst (concat (map chain bs)))"
  using assms
proof (induction bs rule: rev_induct)
  case Nil
  then show ?case by simp
next
  case (snoc b bs)
  have 1: "\<forall>i < length bs. \<forall>item \<in> set (chain (bs ! i)). h (fst item) = i"
  proof (intro allI impI)
    fix i assume "i < length bs"
    with snoc.prems(1) [rule_format, of i]
    show "\<forall>item \<in> set (chain (bs ! i)). h (fst item) = i"
      by (simp add: nth_append)
  qed
  have 2: "\<forall>i < length bs. distinct (map fst (chain (bs ! i)))"
  proof (intro allI impI)
    fix i assume "i < length bs"
    with snoc.prems(2) [rule_format, of i]
    show "distinct (map fst (chain (bs ! i)))"
      by (simp add: nth_append)
  qed
  have old: "h (fst item) < length bs" if "item \<in> set (concat (map chain bs))" for item
  proof -
    from that obtain x where x: "x \<in> set bs" "item \<in> set (chain x)" by auto
    from x(1) obtain j where "j < length bs" "bs ! j = x"
      by (auto simp: in_set_conv_nth)
    with x(2) 1 show ?thesis by auto
  qed
  have new: "h (fst item) = length bs" if "item \<in> set (chain b)" for item
    using snoc.prems(1) [rule_format, of "length bs" item] that by simp
  have "distinct (map fst (chain b))"
    using snoc.prems(2) [rule_format, of "length bs"] by simp
  moreover have "fst ` set (concat (map chain bs)) \<inter> fst ` set (chain b) = {}"
  proof -
    have False if "x \<in> set (concat (map chain bs))" "y \<in> set (chain b)" "fst x = fst y" for x y
      using old [OF that(1)] new [OF that(2)] that(3) by simp
    then show ?thesis by (blast elim!: imageE)
  qed
  ultimately show ?case
    using snoc.IH [OF 1 2] by simp
qed

lemma distinct_stored: "table_inv t \<Longrightarrow> distinct (map fst (stored t))"
  unfolding stored_def
  by (rule distinct_chains [where h = "hash t"]) (simp_all add: table_inv_def)

lemma rehash_bucket_foldl: "rehash_bucket t b = foldl ins t b"
  by (induction b arbitrary: t) (simp_all add: ins_def)

lemma rehash_foldl: "rehash t bs = foldl ins t (concat (map chain bs))"
proof (induction bs arbitrary: t)
  case Nil
  then show ?case by simp
next
  case (Cons b bs)
  then show ?case by (cases b) (simp_all add: rehash_bucket_foldl)
qed

lemma foldl_ins:
  assumes "table_inv t" "distinct (map fst es)" "\<forall>item \<in> set es. lookup t (fst item) = None"
  shows "table_inv (foldl ins t es) \<and> capacity (foldl ins t es) = capacity t
      \<and> resizeCount (foldl ins t es) = resizeCount t
      \<and> size' (foldl ins t es) = size' t + int (length es)
      \<and> lookup (foldl ins t es) = lookup t ++ map_of es"
  using assms
proof (induction es arbitrary: t)
  case Nil
  then show ?case by simp
next
  case (Cons e es)
  let ?t1 = "ins t e"
  note i = insertWithoutResize_inv [OF Cons.prems(1), of "fst e" "snd e", folded ins_def]
  have fresh: "lookup t (fst e) = None" using Cons.prems(3) by simp
  have notin: "fst e \<notin> fst ` set es" using Cons.prems(2) by simp
  have 1: "table_inv ?t1" by (rule i(1))
  have 2: "distinct (map fst es)" using Cons.prems(2) by simp
  have 3: "\<forall>item \<in> set es. lookup ?t1 (fst item) = None"
  proof
    fix item assume m: "item \<in> set es"
    then have "fst item \<noteq> fst e" using notin by (metis imageI)
    with m Cons.prems(3) show "lookup ?t1 (fst item) = None"
      by (simp add: i(2))
  qed
  have me: "map_of es (fst e) = None" using notin by (simp add: map_of_eq_None_iff)
  have mc: "map_of (e # es) = (map_of es)(fst e \<mapsto> snd e)"
    by (cases e) simp
  have eq: "lookup ?t1 ++ map_of es = lookup t ++ map_of (e # es)"
  proof
    fix k
    show "(lookup ?t1 ++ map_of es) k = (lookup t ++ map_of (e # es)) k"
      unfolding mc using me by (auto simp: i(2) map_add_def split: option.splits)
  qed
  from Cons.IH [OF 1 2 3]
  have ih: "table_inv (foldl ins ?t1 es)" "capacity (foldl ins ?t1 es) = capacity ?t1"
    "resizeCount (foldl ins ?t1 es) = resizeCount ?t1"
    "size' (foldl ins ?t1 es) = size' ?t1 + int (length es)"
    "lookup (foldl ins ?t1 es) = lookup ?t1 ++ map_of es"
    by blast+
  have "size' (foldl ins ?t1 es) = size' t + int (length (e # es))"
    using ih(4) fresh by (simp add: i(3))
  moreover have "lookup (foldl ins ?t1 es) = lookup t ++ map_of (e # es)"
    using ih(5) eq by (rule trans)
  ultimately show ?case
    using ih(1,2,3) i(4,5) by (simp only: foldl_Cons)
qed

lemma lookup_empty:
  "buckets t = replicate n None \<Longrightarrow> lookup t key = None"
  by (simp add: lookup_def array_get_def)

lemma resize_inv:
  assumes inv: "table_inv t"
  shows "table_inv (resize t)"
    and "capacity (resize t) = 2 * capacity t"
    and "resizeCount (resize t) = resizeCount t + 1"
    and "size' (resize t) = size' t"
    and "lookup (resize t) = lookup t"
proof -
  define t0 where "t0 = t\<lparr>resizeCount := resizeCount t + 1, capacity := capacity t * 2,
                         buckets := replicate (capacity t * 2) None, size' := 0\<rparr>"
  have r: "resize t = foldl ins t0 (stored t)"
    by (simp add: resize_def Let_def rehash_foldl t0_def stored_def)
  have inv0: "table_inv t0"
    using inv by (simp add: table_inv_def t0_def stored_def)
  have d: "distinct (map fst (stored t))" using inv by (rule distinct_stored)
  have l0: "lookup t0 k = None" for k
    by (rule lookup_empty [of _ "capacity t * 2"]) (simp add: t0_def)
  then have "\<forall>item \<in> set (stored t). lookup t0 (fst item) = None" by simp
  from foldl_ins [OF inv0 d this]
  have f: "table_inv (resize t)" "capacity (resize t) = capacity t0"
    "resizeCount (resize t) = resizeCount t0"
    "size' (resize t) = size' t0 + int (length (stored t))"
    "lookup (resize t) = lookup t0 ++ map_of (stored t)"
    by (simp_all add: r)
  show "table_inv (resize t)" by (rule f(1))
  show "capacity (resize t) = 2 * capacity t" using f(2) by (simp add: t0_def)
  show "resizeCount (resize t) = resizeCount t + 1" using f(3) by (simp add: t0_def)
  show "size' (resize t) = size' t"
    using f(4) inv by (simp add: t0_def table_inv_def)
  show "lookup (resize t) = lookup t"
  proof
    fix k
    have "map_of (stored t) k = lookup t k"
    proof (cases "lookup t k")
      case None
      then have "\<forall>v. (k, v) \<notin> set (stored t)" by (simp add: stored_iff [OF inv])
      then have "k \<notin> fst ` set (stored t)" by force
      with None show ?thesis by (simp add: map_of_eq_None_iff)
    next
      case (Some v)
      then have "(k, v) \<in> set (stored t)" by (simp add: stored_iff [OF inv])
      with d Some show ?thesis by simp
    qed
    then show "lookup (resize t) k = lookup t k"
      by (simp add: f(5) map_add_def l0 split: option.splits)
  qed
qed

lemma has_bucket: "has t key \<Longrightarrow> \<exists>b. array_get (buckets t) (hash t key) = Some b"
  by (cases "array_get (buckets t) (hash t key)") (simp_all add: has_def get_def)

lemma remove_hm_absent: "\<not> has t key \<Longrightarrow> remove_hm t key = (False, t)"
  by (simp add: remove_hm_def)

lemma remove_hm_present:
  assumes inv: "table_inv t" and h: "has t key"
  shows "fst (remove_hm t key) = True"
    and "table_inv (snd (remove_hm t key))"
    and "lookup (snd (remove_hm t key)) = (lookup t)(key := None)"
    and "size' (snd (remove_hm t key)) = size' t - 1"
    and "capacity (snd (remove_hm t key)) = capacity t"
    and "resizeCount (snd (remove_hm t key)) = resizeCount t"
proof -
  define i where "i = hash t key"
  define b where "b = chain (buckets t ! i)"
  have len: "length (buckets t) = capacity t" and pos: "0 < capacity t"
    using inv by (simp_all add: table_inv_def)
  have i: "i < capacity t" unfolding i_def using pos by (rule hash_less)
  have db: "distinct (map fst b)" and hb: "\<forall>item \<in> set b. hash t (fst item) = i"
    using inv i by (simp_all add: table_inv_def b_def)
  from h obtain x where "lookup t key = Some (Defined x)" by (auto simp: has_lookup)
  then have mb: "map_of b key = Some (Defined x)"
    using pos len by (simp add: lookup_map_of b_def i_def)
  then have "(key, Defined x) \<in> set b" by (rule map_of_SomeD)
  then have "key \<in> fst ` set b" by (rule rev_image_eqI) simp
  then obtain j where fk: "find_key key b = Some j"
    using find_key_None [of key b] by (cases "find_key key b") auto
  from find_key_Some [OF fk] have j: "j < length b" "fst (b ! j) = key" by simp_all
  have slot: "array_get (buckets t) i = Some b"
  proof -
    from j(1) have "b \<noteq> []" by auto
    then show ?thesis using i len by (cases "buckets t ! i") (simp_all add: array_get_def b_def)
  qed
  define b' where "b' = butlast (b[j := last b])"
  from swap_pop_set [OF db j(1)]
  have sb': "set b' = set b - {b ! j}" and db': "distinct (map fst b')"
    by (simp_all add: b'_def)
  have lb': "int (length b') = int (length b) - 1"
    using j(1) by (simp add: b'_def)
  define t' where "t' = t\<lparr>buckets := (buckets t)[i := Some b'],
                     size' := size' t + int (length b') - int (length (chain (buckets t ! i)))\<rparr>"
  have "remove_hm t key
          = (True, t\<lparr>buckets := array_set (buckets t) i b', size' := size' t - 1\<rparr>)"
    using h by (simp add: remove_hm_def Let_def i_def [symmetric] slot fk b'_def)
  moreover have "array_set (buckets t) i b' = (buckets t)[i := Some b']"
    using i len by (simp add: array_set_def)
  moreover have "size' t - 1 = size' t + int (length b') - int (length (chain (buckets t ! i)))"
    unfolding b_def [symmetric] lb' by simp
  ultimately have r: "remove_hm t key = (True, t')"
    by (simp only: t'_def)
  have hb': "\<forall>item \<in> set b'. hash t (fst item) = i"
    using hb sb' by simp
  note p = put_bucket [OF inv i db' hb' t'_def]
  show "fst (remove_hm t key) = True" by (simp add: r)
  show "table_inv (snd (remove_hm t key))" using p(1) by (simp add: r)
  show "size' (snd (remove_hm t key)) = size' t - 1"
    using lb' by (simp add: r t'_def b_def)
  show "capacity (snd (remove_hm t key)) = capacity t" by (simp add: r t'_def)
  show "resizeCount (snd (remove_hm t key)) = resizeCount t" by (simp add: r t'_def)
  show "lookup (snd (remove_hm t key)) = (lookup t)(key := None)"
  proof
    fix k
    have lk: "lookup t' k = (if hash t k = i then map_of b' k else lookup t k)"
      by (rule p(2))
    have "map_of b' k = ((map_of b)(key := None)) k"
    proof (cases "k = key")
      case True
      have "key \<notin> fst ` set b'"
      proof
        assume "key \<in> fst ` set b'"
        then obtain item where it: "item \<in> set b'" "fst item = key" by auto
        then have "item \<in> set b" "item \<noteq> b ! j" using sb' by auto
        moreover have "b ! j \<in> set b" using j(1) by simp
        moreover have "inj_on fst (set b)" using db by (simp add: distinct_map)
        ultimately show False
          using it(2) j(2) by (auto dest: inj_onD)
      qed
      with True show ?thesis by (simp add: map_of_eq_None_iff)
    next
      case False
      have iff: "map_of b' k = Some v \<longleftrightarrow> map_of b k = Some v" for v
      proof -
        have "map_of b' k = Some v \<longleftrightarrow> (k, v) \<in> set b'" using db' by simp
        also have "\<dots> \<longleftrightarrow> (k, v) \<in> set b \<and> (k, v) \<noteq> b ! j" using sb' by simp
        also have "\<dots> \<longleftrightarrow> (k, v) \<in> set b" using False j(2) by (metis fst_conv)
        also have "\<dots> \<longleftrightarrow> map_of b k = Some v" using db by simp
        finally show ?thesis .
      qed
      have "map_of b' k = map_of b k"
      proof (cases "map_of b k")
        case None
        have "map_of b' k = None"
        proof (rule ccontr)
          assume "map_of b' k \<noteq> None"
          then obtain v where "map_of b' k = Some v" by blast
          with iff [of v] None show False by simp
        qed
        with None show ?thesis by simp
      next
        case (Some v)
        with iff [of v] show ?thesis by simp
      qed
      with False show ?thesis by simp
    qed
    moreover have "lookup t k = map_of b k" if "hash t k = i"
      using that pos len by (simp add: lookup_map_of b_def)
    moreover have "k \<noteq> key" if "hash t k \<noteq> i"
      using that by (auto simp: i_def)
    ultimately show "lookup (snd (remove_hm t key)) k = ((lookup t)(key := None)) k"
      using lk by (auto simp: r)
  qed
qed

lemma remove_hm_inv: "table_inv t \<Longrightarrow> table_inv (snd (remove_hm t key))"
  by (cases "has t key") (simp_all add: remove_hm_present remove_hm_absent)

lemma remove_hm_capacity: "table_inv t \<Longrightarrow> capacity (snd (remove_hm t key)) = capacity t"
  by (cases "has t key") (simp_all add: remove_hm_present remove_hm_absent)

lemma remove_hm_size: "table_inv t \<Longrightarrow> size' (snd (remove_hm t key)) \<le> size' t"
  by (cases "has t key") (simp_all add: remove_hm_present remove_hm_absent)

lemma needsResize_iff:
  "table_inv t \<Longrightarrow> needsResize t \<longleftrightarrow> 3 * int (capacity t) < 4 * size' t"
proof -
  assume "table_inv t"
  then have pos: "0 < capacity t" and lf: "loadFactor t = 3 / 4"
    by (simp_all add: table_inv_def)
  have "needsResize t \<longleftrightarrow> (3 / 4 :: rat) < of_int (size' t) / of_nat (capacity t)"
    by (simp add: needsResize_def lf)
  also have "\<dots> \<longleftrightarrow> (3 :: rat) * of_nat (capacity t) < 4 * of_int (size' t)"
    using pos by (simp add: field_simps)
  also have "\<dots> \<longleftrightarrow> (of_int (3 * int (capacity t)) :: rat) < of_int (4 * size' t)"
    by simp
  also have "\<dots> \<longleftrightarrow> 3 * int (capacity t) < 4 * size' t"
    by (simp only: of_int_less_iff)
  finally show ?thesis .
qed

lemma set_hm_Some: "set_hm t (Some k) val = Inr (insertWithoutResize (pre_resize t) k val)"
  by (simp add: set_hm_def pre_resize_def)

lemma pre_resize_inv:
  assumes "table_inv t"
  shows "table_inv (pre_resize t)" and "lookup (pre_resize t) = lookup t"
    and "size' (pre_resize t) = size' t"
    and "capacity (pre_resize t) = (if needsResize t then 2 * capacity t else capacity t)"
    and "resizeCount (pre_resize t) = (if needsResize t then resizeCount t + 1 else resizeCount t)"
  using assms by (simp_all add: pre_resize_def resize_inv)

lemma set_hm_inv:
  assumes inv: "table_inv t" and s: "set_hm t key val = Inr t'"
  shows "table_inv t'"
    and "capacity t' = (if needsResize t then 2 * capacity t else capacity t)"
    and "size' t' = (if lookup t (the key) = None then size' t + 1 else size' t)"
    and "lookup t' = (lookup t)(the key \<mapsto> val)"
    and "resizeCount t' = (if needsResize t then resizeCount t + 1 else resizeCount t)"
proof -
  from s obtain k where k: "key = Some k" by (cases key) (simp_all add: set_hm_def)
  with s have t': "t' = insertWithoutResize (pre_resize t) k val"
    by (simp add: set_hm_Some)
  note p = pre_resize_inv [OF inv]
  note i = insertWithoutResize_inv [OF p(1), of k val]
  show "table_inv t'" by (simp add: t' i(1))
  show "capacity t' = (if needsResize t then 2 * capacity t else capacity t)"
    by (simp add: t' i(4) p(4))
  show "size' t' = (if lookup t (the key) = None then size' t + 1 else size' t)"
    by (simp add: t' i(3) p(2,3) k)
  show "lookup t' = (lookup t)(the key \<mapsto> val)"
    by (simp add: t' i(2) p(2) k)
  show "resizeCount t' = (if needsResize t then resizeCount t + 1 else resizeCount t)"
    by (simp add: t' i(5) p(5))
qed

lemma reachable_inv: "reachable t \<Longrightarrow> table_inv t \<and> load_bound t"
proof (induction rule: reachable.induct)
  case (r_new initialCapacity)
  then show ?case
    by (simp add: new_HashMap_inv load_bound_def) (simp add: new_HashMap_def)
next
  case (r_set t key val t')
  then have inv: "table_inv t" and lb: "load_bound t" by simp_all
  note s = set_hm_inv [OF inv r_set.hyps(2)]
  have "load_bound t'"
  proof (cases "needsResize t")
    case True
    have "0 < capacity t" using inv by (simp add: table_inv_def)
    with True lb show ?thesis
      unfolding load_bound_def s(2) s(3) by (auto split: if_splits)
  next
    case False
    then have "4 * size' t \<le> 3 * int (capacity t)"
      using needsResize_iff [OF inv] by simp
    with False show ?thesis
      unfolding load_bound_def s(2) s(3) by (auto split: if_splits)
  qed
  with s(1) show ?case by simp
next
  case (r_remove t key)
  then have inv: "table_inv t" and lb: "load_bound t" by simp_all
  from remove_hm_size [OF inv, of key] remove_hm_capacity [OF inv, of key] lb
  have "load_bound (snd (remove_hm t key))" by (simp add: load_bound_def)
  with remove_hm_inv [OF inv] show ?case by simp
next
  case (r_clear t)
  then have inv: "table_inv t" by simp
  then have "0 < capacity t" by (simp add: table_inv_def)
  then have "load_bound (clear t)" by (simp add: load_bound_def clear_def)
  with clear_inv [OF inv] show ?case by simp
qed

lemma load_bound_rat:
  assumes "table_inv t" "load_bound t"
  shows "of_int (size' t - 1) / of_nat (capacity t) \<le> (3 / 4 :: rat)"
proof -
  have pos: "0 < capacity t" using assms(1) by (simp add: table_inv_def)
  have "4 * (size' t - 1) \<le> 3 * int (capacity t)" using assms(2) by (simp add: load_bound_def)
  then have "(of_int (4 * (size' t - 1)) :: rat) \<le> of_int (3 * int (capacity t))"
    by (simp only: of_int_le_iff)
  then have "(4 :: rat) * of_int (size' t - 1) \<le> 3 * of_nat (capacity t)" by simp
  with pos show ?thesis by (simp add: field_simps)
qed

subsection \<open>The iteration methods\<close>

lemma in_order_stored: "in_order t = stored t"
proof -
  have "map (\<lambda>i. chain (array_get (buckets t) i)) [0..<length (buckets t)] = map chain (buckets t)"
    by (rule nth_equalityI) (simp_all add: array_get_def)
  then show ?thesis by (simp add: in_order_def stored_def)
qed

lemma foldl_push: "foldl (\<lambda>acc item. acc @ [f item]) acc b = acc @ map f b"
  by (induction b arbitrary: acc) simp_all

lemma collect_foldl:
  "foldl (\<lambda>acc bucket. case bucket of None \<Rightarrow> acc
                         | Some b \<Rightarrow> foldl (\<lambda>acc item. acc @ [f item]) acc b) acc bs
     = acc @ map f (concat (map chain bs))"
proof (induction bs arbitrary: acc)
  case Nil
  then show ?case by simp
next
  case (Cons b bs)
  then show ?case by (cases b) (simp_all add: foldl_push)
qed

lemma collect_stored: "collect f t = map f (stored t)"
  by (simp add: collect_def collect_foldl stored_def)

lemma keys_iff: "table_inv t \<Longrightarrow> key \<in> set (keys t) \<longleftrightarrow> lookup t key \<noteq> None"
proof -
  assume inv: "table_inv t"
  have "key \<in> set (keys t) \<longleftrightarrow> (\<exists>v. (key, v) \<in> set (stored t))"
    by (force simp: keys_def collect_stored)
  also have "\<dots> \<longleftrightarrow> (\<exists>v. lookup t key = Some v)"
    by (simp add: stored_iff [OF inv])
  finally show ?thesis by simp
qed

lemma size_keys: "table_inv t \<Longrightarrow> size' t = int (length (keys t))"
  by (simp add: table_inv_def keys_def collect_stored)

lemma get_fun_upd:
  "lookup t' = (lookup t)(k \<mapsto> v) \<Longrightarrow> get t' = (get t)(k := v)"
  by (rule ext) (simp add: get_lookup)

lemma get_eq: "lookup t' = lookup t \<Longrightarrow> get t' = get t"
  by (rule ext) (simp add: get_lookup)

subsection \<open>The test script, evaluated\<close>

lemma set_all_single: "set_hm t (Some k) v = Inr (set_all t [(k, v)])"
  by (simp add: set_hm_Some)

lemma reachable_set_all: "reachable t \<Longrightarrow> reachable (set_all t kvs)"
proof (induction kvs arbitrary: t)
  case Nil
  then show ?case by simp
next
  case (Cons kv kvs)
  have "set_hm t (Some (fst kv)) (snd kv)
          = Inr (insertWithoutResize (pre_resize t) (fst kv) (snd kv))"
    by (rule set_hm_Some)
  with Cons.prems have "reachable (insertWithoutResize (pre_resize t) (fst kv) (snd kv))"
    by (rule r_set)
  then show ?case
    by (simp add: set_hm_Some Cons.IH)
qed

lemma reachable_default: "reachable default_HashMap"
  unfolding default_HashMap_def by (rule r_new) simp

lemma reachable_test_loaded: "reachable test_loaded"
  unfolding test_loaded_def by (rule reachable_set_all) (rule reachable_default)

lemma reachable_test_updated: "reachable test_updated"
  unfolding test_updated_def by (rule reachable_set_all) (rule reachable_test_loaded)

lemma reachable_test_moon: "reachable test_moon"
  unfolding test_moon_def by (rule reachable_set_all) (rule reachable_test_updated)

lemma test_loaded_facts:
  "capacity test_loaded = 16 \<and> size' test_loaded = 12
   \<and> str ''kite'' \<in> set (keys test_loaded) \<and> \<not> needsResize test_loaded"
  by code_simp

lemma test_updated_facts:
  "capacity test_updated = 16 \<and> size' test_updated = 12 \<and> resizeCount test_updated = 0
   \<and> length (keys test_updated) = 12 \<and> distinct (keys test_updated)
   \<and> str ''moon'' \<notin> set (keys test_updated)"
  by code_simp

lemma test_moon_facts:
  "capacity test_moon = 16 \<and> size' test_moon = 13 \<and> resizeCount test_moon = 0
   \<and> str ''kite'' \<in> set (keys test_moon) \<and> str ''nest'' \<notin> set (keys test_moon)"
  by code_simp

lemma test_nest_facts:
  "capacity test_nest = 32 \<and> size' test_nest = 14 \<and> resizeCount test_nest = 1"
  by code_simp

lemma test_kite_again_facts:
  "capacity test_kite_again = 32 \<and> size' test_kite_again = 13"
  by code_simp

lemma get_moon: "get test_moon (str ''moon'') = Defined (str ''silver'')"
  by code_simp

lemma set_kite:
  "set_hm test_loaded (Some (str ''kite'')) (Defined (str ''blue'')) = Inr test_updated"
  unfolding test_updated_def by (rule set_all_single)

lemma set_moon:
  "set_hm test_updated (Some (str ''moon'')) (Defined (str ''silver'')) = Inr test_moon"
  unfolding test_moon_def by (rule set_all_single)

lemma set_nest:
  "set_hm test_moon (Some (str ''nest'')) (Defined (str ''straw'')) = Inr test_nest"
  unfolding test_nest_def by (rule set_all_single)

lemma set_kite_again:
  "set_hm test_moon (Some (str ''kite'')) (Defined (str ''green'')) = Inr test_kite_again"
  unfolding test_kite_again_def by (rule set_all_single)

lemma set_undefined:
  "set_hm default_HashMap (Some (str ''a'')) Undefined = Inr stored_undefined"
  unfolding stored_undefined_def by (rule set_all_single)

lemma stored_undefined_facts:
  "keys stored_undefined = [str ''a''] \<and> size' stored_undefined = 1
   \<and> get stored_undefined (str ''a'') = Undefined"
  by code_simp

lemma comma_facts:
  "entries id comma_in_key = [str ''[a, b, c]'']
   \<and> entries id comma_in_value = [str ''[a, b, c]'']
   \<and> keys comma_in_key = [str ''a, b''] \<and> keys comma_in_value = [str ''a'']
   \<and> values_hm comma_in_key = [Defined (str ''c'')]
   \<and> values_hm comma_in_value = [Defined (str ''b, c'')]"
  by code_simp

section \<open>The claims\<close>

subsection \<open>Load factor after an insertion (C1)\<close>

text \<open>
  C1, as amended. \<^verbatim>\<open>set\<close> tests the load factor before it inserts, with the size at
  call time. So after a \<^verbatim>\<open>set\<close> that inserts a new key into a reachable table, the
  length has grown by one and \<open>(length() - 1) / capacity \<le> 0.75\<close>: the bound holds
  for the entries that were there before the new one. The capacity has been doubled
  exactly when \<open>size / capacity > 0.75\<close> held at call time, the rehash coming before
  the insertion, and every other key reads as before.
\<close>

theorem load_factor_after_insert:
  assumes "reachable t" and "set_hm t (Some k) v = Inr t'" and "k \<notin> set (keys t)"
  shows "length_hm t' = length_hm t + 1
    \<and> of_int (length_hm t' - 1) / of_nat (capacity t') \<le> (3 / 4 :: rat)
    \<and> t' = insertWithoutResize (if needsResize t then resize t else t) k v
    \<and> capacity t' = (if needsResize t then 2 * capacity t else capacity t)
    \<and> get t' = (get t)(k := v)"
proof -
  have inv: "table_inv t" using assms(1) by (simp add: reachable_inv)
  have "reachable t'" using assms(1,2) by (rule r_set)
  then have inv': "table_inv t'" and lb': "load_bound t'" by (simp_all add: reachable_inv)
  note s = set_hm_inv [OF inv assms(2)]
  have "lookup t k = None" using assms(3) keys_iff [OF inv, of k] by simp
  then have "length_hm t' = length_hm t + 1" using s(3) by (simp add: length_hm_def)
  moreover have "of_int (length_hm t' - 1) / of_nat (capacity t') \<le> (3 / 4 :: rat)"
    unfolding length_hm_def using inv' lb' by (rule load_bound_rat)
  moreover have "t' = insertWithoutResize (if needsResize t then resize t else t) k v"
    using assms(2) by (simp add: set_hm_def)
  moreover have "get t' = (get t)(k := v)"
    using s(4) by (simp add: get_fun_upd)
  ultimately show ?thesis using s(2) by simp
qed

text \<open>
  The instance at the last call of the test script, \<^verbatim>\<open>test.set("moon", "silver")\<close>.
\<close>

theorem load_factor_after_insert_witness:
  "reachable test_updated
   \<and> set_hm test_updated (Some (str ''moon'')) (Defined (str ''silver'')) = Inr test_moon
   \<and> str ''moon'' \<notin> set (keys test_updated)
   \<and> length_hm test_moon = length_hm test_updated + 1
   \<and> of_int (length_hm test_moon - 1) / of_nat (capacity test_moon) \<le> (3 / 4 :: rat)
   \<and> capacity test_moon = 16"
proof -
  have fresh: "str ''moon'' \<notin> set (keys test_updated)"
    using test_updated_facts by simp
  from load_factor_after_insert [OF reachable_test_updated set_moon fresh]
  show ?thesis
    using reachable_test_updated set_moon fresh test_moon_facts by simp
qed

text \<open>
  C1 as stated fails at that same call: "moon" is the thirteenth key of a table of
  capacity 16, no resize happens, and \<open>13 / 16 > 0.75\<close> when the call returns.
\<close>

theorem load_factor_counterexample:
  "str ''moon'' \<notin> set (keys test_updated)
   \<and> set_hm test_updated (Some (str ''moon'')) (Defined (str ''silver'')) = Inr test_moon
   \<and> length_hm test_moon = 13 \<and> capacity test_moon = 16
   \<and> \<not> of_int (length_hm test_moon) / of_nat (capacity test_moon) \<le> (3 / 4 :: rat)"
  using test_updated_facts test_moon_facts set_moon
  by (simp add: length_hm_def)

subsection \<open>When the resize is triggered (C2)\<close>

text \<open>
  C2, as amended. From a reachable table of capacity 16 holding 12 keys, the \<^verbatim>\<open>set\<close>
  of a thirteenth key does not resize (\<open>12 / 16 = 0.75\<close> is not exceeded): the
  capacity stays 16 and the length becomes 13. The next \<^verbatim>\<open>set\<close> of a new key finds
  \<open>13 / 16 > 0.75\<close> and resizes exactly once, to capacity 32, before it inserts.
\<close>

theorem resize_trigger:
  assumes "reachable t" and "capacity t = 16" and "length_hm t = 12"
    and "k13 \<notin> set (keys t)" and "set_hm t (Some k13) v13 = Inr t13"
    and "k14 \<notin> set (keys t13)" and "set_hm t13 (Some k14) v14 = Inr t14"
  shows "capacity t13 = 16 \<and> resizeCount t13 = resizeCount t \<and> length_hm t13 = 13
    \<and> capacity t14 = 32 \<and> resizeCount t14 = resizeCount t13 + 1 \<and> length_hm t14 = 14"
proof -
  have inv: "table_inv t" using assms(1) by (simp add: reachable_inv)
  have "reachable t13" using assms(1,5) by (rule r_set)
  then have inv13: "table_inv t13" by (simp add: reachable_inv)
  have n: "\<not> needsResize t"
    using assms(2,3) by (simp add: needsResize_iff [OF inv] length_hm_def)
  have f: "lookup t k13 = None" using assms(4) keys_iff [OF inv, of k13] by simp
  note s = set_hm_inv [OF inv assms(5)]
  have c13: "capacity t13 = 16" and r13: "resizeCount t13 = resizeCount t"
    and l13: "size' t13 = 13"
    using s(2,3,5) n f assms(2,3) by (simp_all add: length_hm_def)
  have n13: "needsResize t13"
    using c13 l13 by (simp add: needsResize_iff [OF inv13])
  have f13: "lookup t13 k14 = None" using assms(6) keys_iff [OF inv13, of k14] by simp
  note s13 = set_hm_inv [OF inv13 assms(7)]
  have "capacity t14 = 32" "resizeCount t14 = resizeCount t13 + 1" "size' t14 = 14"
    using s13(2,3,5) n13 f13 c13 l13 by simp_all
  with c13 r13 l13 show ?thesis by (simp add: length_hm_def)
qed

text \<open>The instance on the test script, continued with a fourteenth key.\<close>

theorem resize_trigger_witness:
  "reachable test_updated \<and> capacity test_updated = 16 \<and> length_hm test_updated = 12
   \<and> str ''moon'' \<notin> set (keys test_updated)
   \<and> set_hm test_updated (Some (str ''moon'')) (Defined (str ''silver'')) = Inr test_moon
   \<and> str ''nest'' \<notin> set (keys test_moon)
   \<and> set_hm test_moon (Some (str ''nest'')) (Defined (str ''straw'')) = Inr test_nest
   \<and> capacity test_moon = 16 \<and> resizeCount test_moon = resizeCount test_updated
   \<and> length_hm test_moon = 13
   \<and> capacity test_nest = 32 \<and> resizeCount test_nest = resizeCount test_moon + 1
   \<and> length_hm test_nest = 14"
proof -
  have h: "capacity test_updated = 16" "length_hm test_updated = 12"
    "str ''moon'' \<notin> set (keys test_updated)" "str ''nest'' \<notin> set (keys test_moon)"
    using test_updated_facts test_moon_facts by (simp_all add: length_hm_def)
  from resize_trigger [OF reachable_test_updated h(1,2,3) set_moon h(4) set_nest]
  show ?thesis
    using reachable_test_updated h set_moon set_nest by simp
qed

text \<open>
  C2 as stated says that the \<^verbatim>\<open>set\<close> of the thirteenth key doubles the capacity to
  32. In the test script it leaves the capacity at 16 and the resize counter at 0.
\<close>

theorem resize_trigger_counterexample:
  "capacity test_updated = 16 \<and> length (keys test_updated) = 12
   \<and> distinct (keys test_updated) \<and> str ''moon'' \<notin> set (keys test_updated)
   \<and> set_hm test_updated (Some (str ''moon'')) (Defined (str ''silver'')) = Inr test_moon
   \<and> capacity test_moon = 16 \<and> resizeCount test_updated = 0
   \<and> resizeCount test_moon = 0"
  using test_updated_facts test_moon_facts set_moon by simp

subsection \<open>Updating an existing key (C3)\<close>

text \<open>
  C3, as amended. For a reachable table and a key that \<^verbatim>\<open>keys()\<close> lists, \<^verbatim>\<open>set\<close>
  leaves the length unchanged and stores the new value. It is not exempt from the
  resize check: the capacity is doubled when \<open>size / capacity > 0.75\<close> holds at call
  time, and unchanged otherwise.
\<close>

theorem update_existing_key:
  assumes "reachable t" and "k \<in> set (keys t)" and "set_hm t (Some k) v = Inr t'"
  shows "length_hm t' = length_hm t
    \<and> capacity t' = (if needsResize t then 2 * capacity t else capacity t)
    \<and> get t' = (get t)(k := v)"
proof -
  have inv: "table_inv t" using assms(1) by (simp add: reachable_inv)
  note s = set_hm_inv [OF inv assms(3)]
  have "lookup t k \<noteq> None" using assms(2) keys_iff [OF inv, of k] by simp
  then have "length_hm t' = length_hm t" using s(3) by (simp add: length_hm_def)
  moreover have "get t' = (get t)(k := v)" using s(4) by (simp add: get_fun_upd)
  ultimately show ?thesis using s(2) by simp
qed

text \<open>The instance at line 315 of the source, \<^verbatim>\<open>test.set("kite", "blue")\<close>.\<close>

theorem update_existing_key_witness:
  "reachable test_loaded \<and> str ''kite'' \<in> set (keys test_loaded)
   \<and> set_hm test_loaded (Some (str ''kite'')) (Defined (str ''blue'')) = Inr test_updated
   \<and> length_hm test_updated = length_hm test_loaded
   \<and> capacity test_updated = capacity test_loaded
   \<and> get test_updated (str ''kite'') = Defined (str ''blue'')"
proof -
  have h: "str ''kite'' \<in> set (keys test_loaded)" and n: "\<not> needsResize test_loaded"
    using test_loaded_facts by simp_all
  from update_existing_key [OF reachable_test_loaded h set_kite]
  show ?thesis
    using reachable_test_loaded h set_kite n by simp
qed

text \<open>
  C3 as stated fails after the test script: the table holds 13 keys at capacity 16, and
  setting the existing key "kite" once more doubles the capacity to 32.
\<close>

theorem update_existing_key_counterexample:
  "str ''kite'' \<in> set (keys test_moon) \<and> capacity test_moon = 16
   \<and> set_hm test_moon (Some (str ''kite'')) (Defined (str ''green'')) = Inr test_kite_again
   \<and> capacity test_kite_again = 32 \<and> length_hm test_kite_again = length_hm test_moon"
  using test_moon_facts test_kite_again_facts set_kite_again
  by (simp add: length_hm_def)

subsection \<open>Round trip (C4) and removal (C5)\<close>

text \<open>
  C4 at the value \<^verbatim>\<open>undefined\<close>: after \<^verbatim>\<open>set("a", undefined)\<close> on a new table,
  \<^verbatim>\<open>get("a")\<close> is \<^verbatim>\<open>undefined\<close> and \<^verbatim>\<open>has("a")\<close> is false, where the claim (and the
  comment of \<^verbatim>\<open>has\<close>: true if the key exists) says true.
\<close>

theorem round_trip_undefined:
  "set_hm default_HashMap (Some (str ''a'')) Undefined = Inr stored_undefined
   \<and> get stored_undefined (str ''a'') = Undefined
   \<and> has stored_undefined (str ''a'') = False"
  using set_undefined stored_undefined_facts by (simp add: has_def)

text \<open>
  C5 at the value \<^verbatim>\<open>undefined\<close>: after \<^verbatim>\<open>set("a", undefined)\<close> on a new table,
  \<^verbatim>\<open>remove("a")\<close> returns false and removes nothing: the length is still 1 and the
  key is still listed, where the claim says that the length decreases by one.
\<close>

theorem remove_undefined:
  "length_hm stored_undefined = 1
   \<and> fst (remove_hm stored_undefined (str ''a'')) = False
   \<and> length_hm (snd (remove_hm stored_undefined (str ''a''))) = 1
   \<and> keys (snd (remove_hm stored_undefined (str ''a''))) = [str ''a'']"
proof -
  have "\<not> has stored_undefined (str ''a'')"
    using stored_undefined_facts by (simp add: has_def)
  then have "remove_hm stored_undefined (str ''a'') = (False, stored_undefined)"
    by (rule remove_hm_absent)
  then show ?thesis using stored_undefined_facts by (simp add: length_hm_def)
qed

text \<open>
  For every value other than \<^verbatim>\<open>undefined\<close> both claims hold in every reachable table,
  and \<^verbatim>\<open>remove\<close> of a key that is not stored returns false and changes nothing.
\<close>

lemma round_trip_defined:
  assumes "reachable t" and "set_hm t (Some k) (Defined x) = Inr t'"
  shows "get t' k = Defined x \<and> has t' k"
proof -
  have inv: "table_inv t" using assms(1) by (simp add: reachable_inv)
  from set_hm_inv(4) [OF inv assms(2)] have "lookup t' k = Some (Defined x)" by simp
  then show ?thesis by (simp add: has_def get_lookup)
qed

lemma set_remove_defined:
  assumes "reachable t" and "set_hm t (Some k) (Defined x) = Inr t'"
  shows "fst (remove_hm t' k) \<and> \<not> has (snd (remove_hm t' k)) k
    \<and> length_hm (snd (remove_hm t' k)) = length_hm t' - 1"
proof -
  have "reachable t'" using assms by (rule r_set)
  then have inv': "table_inv t'" by (simp add: reachable_inv)
  have h: "has t' k" using round_trip_defined [OF assms] by simp
  note r = remove_hm_present [OF inv' h]
  have "lookup (snd (remove_hm t' k)) k = None" by (simp add: r(3))
  then have "\<not> has (snd (remove_hm t' k)) k" by (simp add: has_lookup)
  with r(1,4) show ?thesis by (simp add: length_hm_def)
qed

lemma remove_absent_key:
  assumes "reachable t" and "k \<notin> set (keys t)"
  shows "remove_hm t k = (False, t)"
proof -
  have inv: "table_inv t" using assms(1) by (simp add: reachable_inv)
  have "lookup t k = None" using assms(2) keys_iff [OF inv, of k] by simp
  then have "\<not> has t k" by (simp add: has_lookup)
  then show ?thesis by (rule remove_hm_absent)
qed

subsection \<open>Resize (C6)\<close>

text \<open>
  C6. For every reachable table, \<^verbatim>\<open>_resize\<close> exactly doubles the capacity, keeps the
  length, keeps the set of stored keys, and every key reads the same value as before.
\<close>

theorem resize_doubles_and_preserves:
  assumes "reachable t"
  shows "capacity (resize t) = 2 * capacity t \<and> length_hm (resize t) = length_hm t
    \<and> set (keys (resize t)) = set (keys t) \<and> get (resize t) = get t"
proof -
  have inv: "table_inv t" using assms by (simp add: reachable_inv)
  note r = resize_inv [OF inv]
  have "set (keys (resize t)) = set (keys t)"
    using keys_iff [OF r(1)] keys_iff [OF inv] by (auto simp: r(5))
  moreover have "get (resize t) = get t" using r(5) by (rule get_eq)
  ultimately show ?thesis using r(2,4) by (simp add: length_hm_def)
qed

text \<open>The instance on the table the test script ends with.\<close>

theorem resize_doubles_and_preserves_witness:
  "reachable test_moon \<and> capacity (resize test_moon) = 32
   \<and> length_hm (resize test_moon) = 13
   \<and> get (resize test_moon) (str ''moon'') = Defined (str ''silver'')"
  using resize_doubles_and_preserves [OF reachable_test_moon] reachable_test_moon
    test_moon_facts get_moon
  by (simp add: length_hm_def)

subsection \<open>The hash function (C7)\<close>

text \<open>
  C7. For every string key and every positive capacity, \<^verbatim>\<open>_hash\<close> returns an index
  below the capacity, and it is the rolling hash of the specification: a function of
  the key and the capacity alone.
\<close>

theorem hash_is_rolling_hash:
  "0 < capacity t \<Longrightarrow>
     hash t key < capacity t \<and> hash t key = rolling_hash_spec (capacity t) key"
  by (simp add: hash_less) (simp add: hash_def hash_loop_foldl rolling_hash_spec_def)

text \<open>The instance at the key "apple" and the default capacity.\<close>

theorem hash_is_rolling_hash_witness:
  "0 < capacity (default_HashMap :: js_string HashMap)
   \<and> hash (default_HashMap :: js_string HashMap) (str ''apple'') = 10
   \<and> rolling_hash_spec 16 (str ''apple'') = 10"
proof -
  have c: "capacity (default_HashMap :: js_string HashMap) = 16"
    by (simp add: default_HashMap_def new_HashMap_def)
  have r: "rolling_hash_spec 16 (str ''apple'') = 10"
    by code_simp
  from c have "0 < capacity (default_HashMap :: js_string HashMap)" by simp
  from hash_is_rolling_hash [OF this, of "str ''apple''"] c r show ?thesis by simp
qed

text \<open>In closed form: the value of the polynomial with base 31, modulo the capacity.\<close>

lemma hash_horner:
  assumes "0 < capacity t"
  shows "hash t key = foldl (\<lambda>h c. h * 31 + unat c) 0 key mod capacity t"
proof -
  have "hash t key = hash t key mod capacity t"
    using hash_less [OF assms, of key] by simp
  also have "\<dots> = foldl (\<lambda>h c. h * 31 + unat c) 0 key mod capacity t"
    unfolding hash_def hash_loop_foldl by (simp add: foldl_poly)
  finally show ?thesis .
qed

subsection \<open>Iteration (C8, C9)\<close>

text \<open>
  C8. In every reachable table, \<^verbatim>\<open>keys()\<close>, \<^verbatim>\<open>values()\<close> and \<^verbatim>\<open>entries()\<close> have
  the same length, and it is \<^verbatim>\<open>length()\<close>.
\<close>

theorem iteration_complete:
  "reachable t \<Longrightarrow>
     length (keys t) = length (values_hm t) \<and>
     length (values_hm t) = length (entries render t) \<and>
     int (length (entries render t)) = length_hm t"
proof -
  assume "reachable t"
  then have "table_inv t" by (simp add: reachable_inv)
  then have "size' t = int (length (stored t))" by (simp add: table_inv_def)
  then show ?thesis
    by (simp add: keys_def values_hm_def entries_def collect_stored length_hm_def)
qed

text \<open>The instance on the table the test script ends with.\<close>

theorem iteration_complete_witness:
  "reachable test_moon \<and> length (keys test_moon) = 13 \<and> length (values_hm test_moon) = 13
   \<and> length (entries id test_moon) = 13 \<and> length_hm test_moon = 13"
proof -
  have "length (keys test_moon) = 13" by code_simp
  with iteration_complete [OF reachable_test_moon, of id] reachable_test_moon
  show ?thesis by simp
qed

text \<open>
  C9, as amended. \<^verbatim>\<open>keys()\<close> and \<^verbatim>\<open>values()\<close> return the keys and the values of the
  stored entries, one per entry, ordered by bucket index and then by position in the
  chain; \<^verbatim>\<open>entries()\<close> returns, in that same order, one formatted string
  "[key, value]" per entry, not a pair.
\<close>

theorem iteration_order:
  "keys t = map fst (in_order t) \<and> values_hm t = map snd (in_order t)
   \<and> entries render t = map (format_entry render) (in_order t)"
  by (simp add: keys_def values_hm_def entries_def collect_stored in_order_stored)

text \<open>
  C9 as stated says that \<^verbatim>\<open>entries()\<close> returns the (key, value) pairs. Two tables
  that store different pairs have the same \<^verbatim>\<open>entries()\<close>: the key "a, b" with the
  value "c", and the key "a" with the value "b, c", both give "[a, b, c]".
\<close>

theorem entries_are_formatted_strings:
  "set_hm default_HashMap (Some (str ''a, b'')) (Defined (str ''c'')) = Inr comma_in_key
   \<and> set_hm default_HashMap (Some (str ''a'')) (Defined (str ''b, c'')) = Inr comma_in_value
   \<and> entries id comma_in_key = [str ''[a, b, c]'']
   \<and> entries id comma_in_value = [str ''[a, b, c]'']
   \<and> keys comma_in_key \<noteq> keys comma_in_value
   \<and> values_hm comma_in_key \<noteq> values_hm comma_in_value"
proof -
  have "set_hm default_HashMap (Some (str ''a, b'')) (Defined (str ''c'')) = Inr comma_in_key"
    unfolding comma_in_key_def by (rule set_all_single)
  moreover have "set_hm default_HashMap (Some (str ''a'')) (Defined (str ''b, c''))
      = Inr comma_in_value"
    unfolding comma_in_value_def by (rule set_all_single)
  moreover have "keys comma_in_key \<noteq> keys comma_in_value"
    and "values_hm comma_in_key \<noteq> values_hm comma_in_value"
    by code_simp+
  ultimately show ?thesis using comma_facts by simp
qed

subsection \<open>The value undefined (C10)\<close>

text \<open>
  C10. In every reachable table, after \<^verbatim>\<open>set(k, undefined)\<close> the key is listed by
  \<^verbatim>\<open>keys()\<close> and counted by \<^verbatim>\<open>length()\<close> (one more than before when the key is
  new), yet \<^verbatim>\<open>get(k)\<close> is \<^verbatim>\<open>undefined\<close>, \<^verbatim>\<open>has(k)\<close> is false, and \<^verbatim>\<open>remove(k)\<close>
  returns false and leaves the table as it is.
\<close>

theorem undefined_is_the_absence_sentinel:
  assumes "reachable t" and "set_hm t (Some k) Undefined = Inr t'"
  shows "k \<in> set (keys t') \<and> length_hm t' = int (length (keys t'))
    \<and> length_hm t' = (if k \<in> set (keys t) then length_hm t else length_hm t + 1)
    \<and> get t' k = Undefined \<and> \<not> has t' k \<and> remove_hm t' k = (False, t')"
proof -
  have inv: "table_inv t" using assms(1) by (simp add: reachable_inv)
  note s = set_hm_inv [OF inv assms(2)]
  have l: "lookup t' k = Some Undefined" using s(4) by simp
  then have "k \<in> set (keys t')" using keys_iff [OF s(1), of k] by simp
  moreover have "length_hm t' = int (length (keys t'))"
    using size_keys [OF s(1)] by (simp add: length_hm_def)
  moreover have "length_hm t' = (if k \<in> set (keys t) then length_hm t else length_hm t + 1)"
    using s(3) keys_iff [OF inv, of k] by (simp add: length_hm_def)
  moreover have g: "get t' k = Undefined" using l by (simp add: get_lookup)
  moreover from g have h: "\<not> has t' k" by (simp add: has_def)
  moreover from h have "remove_hm t' k = (False, t')" by (rule remove_hm_absent)
  ultimately show ?thesis by simp
qed

text \<open>The instance at the key "a" on a new table.\<close>

theorem undefined_is_the_absence_sentinel_witness:
  "reachable (default_HashMap :: js_string HashMap)
   \<and> set_hm default_HashMap (Some (str ''a'')) Undefined = Inr stored_undefined
   \<and> str ''a'' \<in> set (keys stored_undefined) \<and> length_hm stored_undefined = 1
   \<and> \<not> has stored_undefined (str ''a'')
   \<and> remove_hm stored_undefined (str ''a'') = (False, stored_undefined)"
  using undefined_is_the_absence_sentinel [OF reachable_default set_undefined]
    reachable_default set_undefined stored_undefined_facts
  by (simp add: length_hm_def)

end
